theory Spec2Isabelle
  imports Main
begin

section \<open>The firehose pool supervisor (firehose.go)\<close>

text \<open>
  The source is one Go file with three methods of \<open>*Server\<close>: \<open>failure\<close>, \<open>retry\<close> and
  \<open>clientsReset\<close>. Every method body runs with the server's exclusive lock held from entry
  to exit, so each call is modelled as one function from the server state to the new state,
  together with the list of externally visible effects it performs, in program order.
  Everything the methods obtain from outside (the clock, the AWS session and
  stream-description calls, the handles returned by \<open>NewClient\<close>) is an explicit argument.
\<close>

subsection \<open>Constants\<close>

text \<open>
  A \<open>time.Duration\<close> is a signed 64-bit count of nanoseconds; a point in time is a count of
  nanoseconds on the clock read by \<open>time.Now()\<close>.
\<close>

type_synonym duration = int
type_synonym time = int

definition Second :: duration where
  "Second = 1000000000"

definition maxConnectionsTries :: int where
  "maxConnectionsTries = 3"

definition connectionRetry :: duration where
  "connectionRetry = 5 * Second"

definition connectTimeout :: duration where
  "connectTimeout = 15 * Second"

definition errorsFrame :: duration where
  "errorsFrame = 10 * Second"

definition maxErrors :: int where
  "maxErrors = 10"

definition minDuration :: duration where
  "minDuration = - (2 ^ 63)"

definition maxDuration :: duration where
  "maxDuration = 2 ^ 63 - 1"

text \<open>
  \<open>t.Sub(u)\<close> of package \<open>time\<close>: the difference \<open>t - u\<close>, replaced by the largest (smallest)
  duration when it does not fit into 64 bits.
\<close>

definition time_Sub :: "time \<Rightarrow> time \<Rightarrow> duration" where
  "time_Sub t u =
     (if t - u > maxDuration then maxDuration
      else if t - u < minDuration then minDuration
      else t - u)"

subsection \<open>Data\<close>

text \<open>
  The declarations of \<open>Server\<close>, \<open>Config\<close> and the client type are not part of the file;
  the records below hold exactly the fields that the three methods read or write.
  \<open>cfg.Workers\<close> is compared with \<open>len(srv.clients)\<close> and is therefore a Go \<open>int\<close>, which may
  be negative. The counters \<open>errors\<close> and \<open>tries\<close> are Go integers that only ever count up by
  one per call or per sleep of at least five seconds; they are modelled as unbounded
  integers. A client, a session and an error value are opaque to the supervisor.
\<close>

type_synonym worker = nat
type_synonym session = nat
type_synonym error = string

record config =
  StreamName :: string
  Profile :: string
  Region :: string
  Workers :: int

text \<open>The value of \<open>firehose.New(sess, &aws.Config{Region: ...})\<close>.\<close>

datatype firehose = Firehose_New session string

text \<open>The three fields of the stream description that the log line prints.\<close>

record stream_description =
  DeliveryStreamName :: string
  DeliveryStreamARN :: string
  DeliveryStreamStatus :: string

record server =
  cfg :: config
  clients :: "worker list"
  awsSvc :: "firehose option"
  errors :: int
  lastError :: time
  lastConnection :: time
  reseting :: bool
  exiting :: bool
  failing :: bool

text \<open>
  The effects of the methods on the world outside the server record, one constructor per
  statement of the source that has such an effect.
\<close>

datatype event =
    Log_errors_detected int
  | Go_retry
  | Log_attempts int
  | Sleep duration
  | Log_reload string
  | NewSessionWithOptions string
  | NewSession
  | Log_session_error error
  | DescribeDeliveryStream firehose string
  | Log_describe_error error
  | Log_connected stream_description
  | Client_Exit worker
  | NewClient worker
  | Store_clientCount int

text \<open>
  What one invocation of \<open>clientsReset\<close> receives from outside: the outcome of the session
  constructor, the outcome of \<open>DescribeDeliveryStream\<close>, the reading of the clock (each
  path through the method reads it at most once) and the handle that \<open>NewClient\<close> returns
  in the iteration with loop index \<open>i\<close>.
\<close>

record reset_env =
  session_outcome :: "error + session"
  describe_outcome :: "error + stream_description"
  clock :: time
  new_client :: "int \<Rightarrow> worker"

text \<open>A call either returns its \<open>error\<close> value (\<open>None\<close> is \<open>nil\<close>) or panics.\<close>

datatype outcome = Returned "error option" | Panicked

subsection \<open>failure\<close>

text \<open>
  The method reads the clock twice: \<open>now1\<close> in the comparison with \<open>errorsFrame\<close> and \<open>now2\<close>
  for the new value of \<open>lastError\<close>. The statement \<open>go srv.retry()\<close> starts a goroutine and
  returns; it is the effect \<open>Go_retry\<close>.
\<close>

definition failure :: "time \<Rightarrow> time \<Rightarrow> server \<Rightarrow> server \<times> event list" where
  "failure now1 now2 srv =
     (if reseting srv \<or> exiting srv then (srv, [])
      else
        let srv1 = (if time_Sub now1 (lastError srv) > errorsFrame
                    then srv\<lparr>errors := 0\<rparr> else srv);
            srv2 = srv1\<lparr>errors := errors srv1 + 1\<rparr>;
            srv3 = srv2\<lparr>lastError := now2\<rparr>
        in (srv3,
            Log_errors_detected (errors srv3)
              # (if errors srv3 > maxErrors then [Go_retry] else [])))"

text \<open>A sequence of calls of \<open>failure\<close>, each with its two clock readings.\<close>

fun failures :: "(time \<times> time) list \<Rightarrow> server \<Rightarrow> server \<times> event list" where
  "failures [] srv = (srv, [])"
| "failures ((now1, now2) # ts) srv =
     (case failure now1 now2 srv of
        (srv', evs) \<Rightarrow> (case failures ts srv' of (srv'', evs') \<Rightarrow> (srv'', evs @ evs')))"

subsection \<open>clientsReset\<close>

text \<open>
  The shrinking loop \<open>for i := currClients; i > srv.cfg.Workers; i--\<close>. The index expression
  \<open>srv.clients[k]\<close> panics when \<open>k\<close> is out of range; the first component of the result is
  \<open>False\<close> then. \<open>append(srv.clients[:k], srv.clients[k+1:]...)\<close> is the list without its
  element \<open>k\<close>.
\<close>

function shrink_loop :: "int \<Rightarrow> int \<Rightarrow> worker list \<Rightarrow> bool \<times> worker list \<times> event list" where
  "shrink_loop i target cs =
     (if i > target then
        (let k = i - 1 in
         if k < 0 \<or> int (length cs) \<le> k then (False, cs, [])
         else
           (case shrink_loop (i - 1) target (take (nat k) cs @ drop (nat (k + 1)) cs) of
              (ok, cs', evs) \<Rightarrow> (ok, cs', Client_Exit (cs ! nat k) # evs)))
      else (True, cs, []))"
  by pat_completeness auto
termination
  by (relation "measure (\<lambda>(i, target, cs). nat (i - target))") auto

declare shrink_loop.simps [simp del]

text \<open>The growing loop \<open>for i := currClients; i < srv.cfg.Workers; i++\<close>.\<close>

function grow_loop :: "(int \<Rightarrow> worker) \<Rightarrow> int \<Rightarrow> int \<Rightarrow> worker list \<Rightarrow> worker list \<times> event list" where
  "grow_loop mk i target cs =
     (if i < target then
        (case grow_loop mk (i + 1) target (cs @ [mk i]) of
           (cs', evs) \<Rightarrow> (cs', NewClient (mk i) # evs))
      else (cs, []))"
  by pat_completeness auto
termination
  by (relation "measure (\<lambda>(mk, i, target, cs). nat (target - i))") auto

declare grow_loop.simps [simp del]

text \<open>
  Lines 121 to 144: the reconciliation of the number of clients, entered after the
  connection has been established. The deferred \<open>srv.reseting = false\<close> is applied by the
  caller \<open>clientsReset\<close> on every way out.
\<close>

definition reconcile :: "reset_env \<Rightarrow> server \<Rightarrow> outcome \<times> server \<times> event list" where
  "reconcile env srv =
     (let currClients = int (length (clients srv)) in
      if currClients = Workers (cfg srv) then (Returned None, srv, [])
      else if currClients > Workers (cfg srv) then
        (case shrink_loop currClients (Workers (cfg srv)) (clients srv) of
           (False, cs, evs) \<Rightarrow> (Panicked, srv\<lparr>clients := cs\<rparr>, evs)
         | (True, cs, evs) \<Rightarrow>
             (Returned None, srv\<lparr>clients := cs\<rparr>,
              evs @ [Store_clientCount (int (length cs)), Store_clientCount (int (length cs))]))
      else
        (case grow_loop (new_client env) currClients (Workers (cfg srv)) (clients srv) of
           (cs, evs) \<Rightarrow>
             (Returned None, srv\<lparr>clients := cs\<rparr>,
              evs @ [Store_clientCount (int (length cs))])))"

definition clientsReset :: "reset_env \<Rightarrow> server \<Rightarrow> outcome \<times> server \<times> event list" where
  "clientsReset env srv =
     (if exiting srv then (Returned None, srv, [])
      else
        let srv1 = srv\<lparr>reseting := True\<rparr>;
            evs1 = [Log_reload (StreamName (cfg srv1)),
                    if Profile (cfg srv1) \<noteq> [] then NewSessionWithOptions (Profile (cfg srv1))
                    else NewSession]
        in
        (case session_outcome env of
           Inl err \<Rightarrow>
             (Returned (Some err),
              srv1\<lparr>errors := errors srv1 + 1, lastError := clock env, reseting := False\<rparr>,
              evs1 @ [Log_session_error err])
         | Inr sess \<Rightarrow>
             let srv2 = srv1\<lparr>awsSvc := Some (Firehose_New sess (Region (cfg srv1)))\<rparr>;
                 evs2 = evs1 @ [DescribeDeliveryStream (Firehose_New sess (Region (cfg srv1)))
                                  (StreamName (cfg srv1))]
             in
             (case describe_outcome env of
                Inl err \<Rightarrow>
                  (Returned (Some err),
                   srv2\<lparr>errors := errors srv2 + 1, lastError := clock env, reseting := False\<rparr>,
                   evs2 @ [Log_describe_error err])
              | Inr l \<Rightarrow>
                  let srv3 = srv2\<lparr>lastConnection := clock env, errors := 0, failing := False\<rparr>
                  in
                  (case reconcile env srv3 of
                     (res, srv4, evs4) \<Rightarrow>
                       (res, srv4\<lparr>reseting := False\<rparr>, evs2 @ [Log_connected l] @ evs4)))))"

subsection \<open>retry\<close>

text \<open>
  The loop of \<open>retry\<close> has no exit but a \<open>nil\<close> from \<open>clientsReset\<close>, and it may run forever.
  It is run here against the list of what the successive invocations of \<open>clientsReset\<close>
  receive from outside: the result says whether the method has returned within these
  attempts, and gives the state and the effects up to that point otherwise.
\<close>

datatype status = Retry_returned | Retry_panicked | Retry_running

fun retry_loop :: "reset_env list \<Rightarrow> int \<Rightarrow> server \<Rightarrow> status \<times> server \<times> event list" where
  "retry_loop [] tries srv = (Retry_running, srv, [])"
| "retry_loop (env # envs) tries srv =
     (case clientsReset env srv of
        (Returned None, srv', evs) \<Rightarrow> (Retry_returned, srv', evs)
      | (Panicked, srv', evs) \<Rightarrow> (Retry_panicked, srv', evs)
      | (Returned (Some err), srv', evs) \<Rightarrow>
          let tries' = tries + 1;
              pause = (if tries' \<ge> maxConnectionsTries then connectionRetry * 2
                       else connectionRetry)
          in
          (case retry_loop envs tries' srv' of
             (st, srv'', evs') \<Rightarrow>
               (st, srv'', evs @ [Log_attempts tries', Sleep pause] @ evs')))"

definition retry :: "reset_env list \<Rightarrow> server \<Rightarrow> status \<times> server \<times> event list" where
  "retry envs srv =
     (if failing srv then (Retry_returned, srv, [])
      else retry_loop envs 0 (srv\<lparr>failing := True\<rparr>))"

subsection \<open>Goroutines and the lock\<close>

text \<open>
  \<open>failure\<close> and \<open>retry\<close> begin with \<open>srv.Lock()\<close> and end with the deferred
  \<open>srv.Unlock()\<close>; \<open>failure\<close> starts \<open>retry\<close> with a \<open>go\<close> statement. To state what callers
  wait for, the goroutines that execute the two methods are modelled with the lock:
  a goroutine stands at the \<open>Lock\<close> of \<open>failure\<close>, at the \<open>Lock\<close> of \<open>retry\<close>, inside the loop
  of \<open>retry\<close> (with the lock held, and its variable \<open>tries\<close>), or it has returned.
\<close>

datatype goroutine =
    In_failure
  | In_retry
  | In_retry_loop int
  | Done

record system =
  srv_state :: server
  lock_holder :: "nat option"
  goroutines :: "goroutine list"
  crashed :: bool

datatype action =
    Call_failure
  | Run_failure nat time time
  | Enter_retry nat
  | Iterate_retry nat reset_env

text \<open>
  The steps of the system. \<open>Call_failure\<close>: some goroutine calls \<open>srv.failure()\<close>.
  \<open>Run_failure i now1 now2\<close>: goroutine \<open>i\<close> acquires the lock, which must be free, and
  runs the body of \<open>failure\<close> up to the deferred \<open>Unlock\<close>; a \<open>go srv.retry()\<close> adds a goroutine.
  \<open>Enter_retry i\<close>: goroutine \<open>i\<close> acquires the lock in \<open>retry\<close> and either returns, when
  \<open>failing\<close> is set, or sets it and enters the loop, keeping the lock.
  \<open>Iterate_retry i env\<close>: goroutine \<open>i\<close> runs one iteration of the loop, including the sleep;
  when \<open>clientsReset\<close> returns \<open>nil\<close> the method returns and the deferred \<open>Unlock\<close>
  releases the lock. A panic runs the deferred \<open>Unlock\<close> and ends the program.
  A step that cannot be taken is \<open>None\<close>.
\<close>

fun is_looping :: "goroutine \<Rightarrow> bool" where
  "is_looping (In_retry_loop tries) = True"
| "is_looping _ = False"

definition goroutine_at :: "system \<Rightarrow> nat \<Rightarrow> goroutine option" where
  "goroutine_at sys i = (if i < length (goroutines sys) then Some (goroutines sys ! i) else None)"

fun step :: "action \<Rightarrow> system \<Rightarrow> system option" where
  "step Call_failure sys =
     (if crashed sys then None
      else Some (sys\<lparr>goroutines := goroutines sys @ [In_failure]\<rparr>))"
| "step (Run_failure i now1 now2) sys =
     (if crashed sys \<or> goroutine_at sys i \<noteq> Some In_failure \<or> lock_holder sys \<noteq> None then None
      else
        (case failure now1 now2 (srv_state sys) of
           (srv', evs) \<Rightarrow>
             Some (sys\<lparr>srv_state := srv',
                       goroutines := (goroutines sys)[i := Done]
                         @ (if Go_retry \<in> set evs then [In_retry] else [])\<rparr>)))"
| "step (Enter_retry i) sys =
     (if crashed sys \<or> goroutine_at sys i \<noteq> Some In_retry \<or> lock_holder sys \<noteq> None then None
      else if failing (srv_state sys) then Some (sys\<lparr>goroutines := (goroutines sys)[i := Done]\<rparr>)
      else Some (sys\<lparr>srv_state := (srv_state sys)\<lparr>failing := True\<rparr>,
                     lock_holder := Some i,
                     goroutines := (goroutines sys)[i := In_retry_loop 0]\<rparr>))"
| "step (Iterate_retry i env) sys =
     (if crashed sys then None
      else
        (case goroutine_at sys i of
           Some (In_retry_loop tries) \<Rightarrow>
             (case retry_loop [env] tries (srv_state sys) of
                (Retry_returned, srv', evs) \<Rightarrow>
                  Some (sys\<lparr>srv_state := srv', lock_holder := None,
                            goroutines := (goroutines sys)[i := Done]\<rparr>)
              | (Retry_panicked, srv', evs) \<Rightarrow>
                  Some (sys\<lparr>srv_state := srv', lock_holder := None,
                            goroutines := (goroutines sys)[i := Done], crashed := True\<rparr>)
              | (Retry_running, srv', evs) \<Rightarrow>
                  Some (sys\<lparr>srv_state := srv',
                            goroutines := (goroutines sys)[i := In_retry_loop (tries + 1)]\<rparr>))
         | _ \<Rightarrow> None))"

fun run :: "action list \<Rightarrow> system \<Rightarrow> system option" where
  "run [] sys = Some sys"
| "run (a # as) sys = (case step a sys of None \<Rightarrow> None | Some sys' \<Rightarrow> run as sys')"

definition initial_system :: "server \<Rightarrow> system" where
  "initial_system srv = \<lparr>srv_state = srv, lock_holder = None, goroutines = [], crashed = False\<rparr>"

definition lock_inv :: "system \<Rightarrow> bool" where
  "lock_inv sys \<longleftrightarrow>
     (\<forall>i < length (goroutines sys).
        is_looping (goroutines sys ! i) \<longleftrightarrow> lock_holder sys = Some i)
      \<and> (\<forall>i. lock_holder sys = Some i \<longrightarrow> i < length (goroutines sys))"

subsection \<open>Observations on the effects\<close>

text \<open>The clients whose \<open>Exit\<close> was called, in the order of the calls.\<close>

fun stopped :: "event list \<Rightarrow> worker list" where
  "stopped [] = []"
| "stopped (Client_Exit w # evs) = w # stopped evs"
| "stopped (_ # evs) = stopped evs"

text \<open>The handles returned by the calls of \<open>NewClient\<close>, in the order of the calls.\<close>

fun created :: "event list \<Rightarrow> worker list" where
  "created [] = []"
| "created (NewClient w # evs) = w # created evs"
| "created (_ # evs) = created evs"

text \<open>The arguments of the calls of \<open>time.Sleep\<close>, in the order of the calls.\<close>

fun sleeps :: "event list \<Rightarrow> duration list" where
  "sleeps [] = []"
| "sleeps (Sleep d # evs) = d # sleeps evs"
| "sleeps (_ # evs) = sleeps evs"

text \<open>Whether both remote calls of an invocation of \<open>clientsReset\<close> succeed.\<close>

definition connects :: "reset_env \<Rightarrow> bool" where
  "connects env =
     (case session_outcome env of
        Inl err \<Rightarrow> False
      | Inr sess \<Rightarrow> (case describe_outcome env of Inl err \<Rightarrow> False | Inr l \<Rightarrow> True))"

subsection \<open>Example inputs\<close>

definition example_server :: "worker list \<Rightarrow> int \<Rightarrow> server" where
  "example_server ws n =
     \<lparr>cfg = \<lparr>StreamName = ''events'', Profile = [], Region = ''eu-west-1'', Workers = n\<rparr>,
      clients = ws, awsSvc = None, errors = 4, lastError = 7 * Second,
      lastConnection = 0, reseting = False, exiting = False, failing = False\<rparr>"

definition example_description :: stream_description where
  "example_description =
     \<lparr>DeliveryStreamName = ''events'', DeliveryStreamARN = ''arn:events'',
      DeliveryStreamStatus = ''ACTIVE''\<rparr>"

definition env_connected :: reset_env where
  "env_connected =
     \<lparr>session_outcome = Inr 1, describe_outcome = Inr example_description,
      clock = 20 * Second, new_client = (\<lambda>i. 100 + nat i)\<rparr>"

definition env_no_session :: reset_env where
  "env_no_session = env_connected\<lparr>session_outcome := Inl ''no credentials''\<rparr>"

definition env_no_stream :: reset_env where
  "env_no_stream = env_connected\<lparr>describe_outcome := Inl ''stream not found''\<rparr>"

definition example_schedule :: "action list" where
  "example_schedule =
     [Call_failure, Call_failure, Run_failure 0 (8 * Second) (8 * Second), Enter_retry 2,
      Iterate_retry 2 env_no_stream]"

definition example_system :: system where
  "example_system = initial_system (example_server [10, 11] 2\<lparr>errors := 10\<rparr>)"

subsection \<open>The connected part of clientsReset\<close>

text \<open>
  The state in which line 121 is reached, and the effects up to there, of an invocation
  whose session and stream description both succeed.
\<close>

definition connected :: "reset_env \<Rightarrow> session \<Rightarrow> server \<Rightarrow> server" where
  "connected env sess srv =
     srv\<lparr>reseting := True, awsSvc := Some (Firehose_New sess (Region (cfg srv))),
         lastConnection := clock env, errors := 0, failing := False\<rparr>"

definition connect_events :: "session \<Rightarrow> stream_description \<Rightarrow> server \<Rightarrow> event list" where
  "connect_events sess l srv =
     [Log_reload (StreamName (cfg srv)),
      if Profile (cfg srv) \<noteq> [] then NewSessionWithOptions (Profile (cfg srv)) else NewSession,
      DescribeDeliveryStream (Firehose_New sess (Region (cfg srv))) (StreamName (cfg srv)),
      Log_connected l]"

section \<open>Auxiliary facts\<close>

subsection \<open>The observations\<close>

lemma stopped_append: "stopped (xs @ ys) = stopped xs @ stopped ys"
  by (induction xs rule: stopped.induct) simp_all

lemma created_append: "created (xs @ ys) = created xs @ created ys"
  by (induction xs rule: created.induct) simp_all

lemma sleeps_append: "sleeps (xs @ ys) = sleeps xs @ sleeps ys"
  by (induction xs rule: sleeps.induct) simp_all

lemma stopped_map_Exit: "stopped (map Client_Exit ws) = ws"
  by (induction ws) simp_all

lemma created_map_Exit: "created (map Client_Exit ws) = []"
  by (induction ws) simp_all

lemma created_map_New: "created (map NewClient ws) = ws"
  by (induction ws) simp_all

lemma stopped_map_New: "stopped (map NewClient ws) = []"
  by (induction ws) simp_all

lemma shrink_loop_tail:
  "0 \<le> target \<Longrightarrow> target \<le> i \<Longrightarrow> i = int (length cs) \<Longrightarrow>
   shrink_loop i target cs =
     (True, take (nat target) cs, map Client_Exit (rev (drop (nat target) cs)))"
proof (induction i target cs rule: shrink_loop.induct)
  case (1 i target cs)
  show ?case
  proof (cases "i > target")
    case False
    with "1.prems" have "nat target = length cs" by simp
    with False show ?thesis by (simp add: shrink_loop.simps [of i target cs])
  next
    case True
    define k where "k = i - 1"
    define cs' where "cs' = take (nat k) cs @ drop (nat (k + 1)) cs"
    from True "1.prems" have pos: "0 < length cs" by auto
    from True "1.prems" pos have k: "0 \<le> k" "nat k < length cs" "nat (k + 1) = length cs"
      "Suc (nat k) = length cs" "nat target \<le> nat k"
      unfolding k_def by linarith+
    have cs': "cs' = take (nat k) cs" by (simp add: cs'_def k)
    have len: "i - 1 = int (length cs')" using k by (simp add: cs' k_def)
    have ih: "shrink_loop (i - 1) target cs' =
        (True, take (nat target) cs', map Client_Exit (rev (drop (nat target) cs')))"
      using "1.IH" [of k] True k "1.prems" len
      by (simp add: k_def cs'_def)
    have split: "drop (nat target) cs = drop (nat target) (take (nat k) cs) @ [cs ! nat k]"
    proof -
      have "take (Suc (nat k)) cs = take (nat k) cs @ [cs ! nat k]"
        using k(2) by (rule take_Suc_conv_app_nth)
      moreover have "take (Suc (nat k)) cs = cs"
        using k(4) by simp
      ultimately have "cs = take (nat k) cs @ [cs ! nat k]"
        by simp
      then have "drop (nat target) cs = drop (nat target) (take (nat k) cs @ [cs ! nat k])" by simp
      also have "\<dots> = drop (nat target) (take (nat k) cs) @ [cs ! nat k]"
        using k by simp
      finally show ?thesis .
    qed
    have tk: "take (nat target) cs' = take (nat target) cs"
      using k by (simp add: cs' min_def)
    show ?thesis
      using True k ih tk split
      by (simp add: shrink_loop.simps [of i target cs] k_def [symmetric] cs'_def [symmetric] Let_def cs')
  qed
qed

text \<open>With a negative target the loop reaches \<open>srv.clients[-1]\<close> and panics.\<close>

lemma shrink_loop_negative:
  "target < 0 \<Longrightarrow> 0 \<le> i \<Longrightarrow> i \<le> int (length cs) \<Longrightarrow> fst (shrink_loop i target cs) = False"
proof (induction i target cs rule: shrink_loop.induct)
  case (1 i target cs)
  show ?case
  proof (cases "i = 0")
    case True
    with "1.prems" show ?thesis by (simp add: shrink_loop.simps [of 0 target cs])
  next
    case False
    with "1.prems" have k: "target < i" "\<not> i - 1 < 0" "\<not> int (length cs) \<le> i - 1" by simp_all
    have "fst (shrink_loop (i - 1) target (take (nat (i - 1)) cs @ drop (nat (i - 1 + 1)) cs)) = False"
      using k "1.prems" by (intro "1.IH") simp_all
    with k show ?thesis
      by (auto simp add: shrink_loop.simps [of i target cs] Let_def split: prod.splits)
  qed
qed

lemma grow_loop_tail:
  "grow_loop mk i target cs =
     (cs @ map mk [i..target - 1], map (\<lambda>j. NewClient (mk j)) [i..target - 1])"
proof (induction mk i target cs rule: grow_loop.induct)
  case (1 mk i target cs)
  show ?case
  proof (cases "i < target")
    case False
    then show ?thesis by (simp add: grow_loop.simps [of mk i target cs])
  next
    case True
    then have "[i..target - 1] = i # [i + 1..target - 1]"
      by (simp add: upto_rec1)
    with True "1.IH" show ?thesis
      by (simp add: grow_loop.simps [of mk i target cs])
  qed
qed

subsection \<open>The reconciliation of the number of clients\<close>

lemma reconcile_shrink:
  assumes "0 \<le> Workers (cfg srv)" and "Workers (cfg srv) < int (length (clients srv))"
  shows "reconcile env srv =
           (Returned None, srv\<lparr>clients := take (nat (Workers (cfg srv))) (clients srv)\<rparr>,
            map Client_Exit (rev (drop (nat (Workers (cfg srv))) (clients srv)))
              @ [Store_clientCount (Workers (cfg srv)), Store_clientCount (Workers (cfg srv))])"
proof -
  have "shrink_loop (int (length (clients srv))) (Workers (cfg srv)) (clients srv) =
          (True, take (nat (Workers (cfg srv))) (clients srv),
           map Client_Exit (rev (drop (nat (Workers (cfg srv))) (clients srv))))"
    using assms by (intro shrink_loop_tail) simp_all
  moreover have "int (length (take (nat (Workers (cfg srv))) (clients srv))) = Workers (cfg srv)"
    using assms by simp
  ultimately show ?thesis
    using assms by (simp add: reconcile_def Let_def)
qed

lemma reconcile_grow:
  assumes "int (length (clients srv)) < Workers (cfg srv)"
  shows "reconcile env srv =
           (Returned None,
            srv\<lparr>clients := clients srv
                   @ map (new_client env) [int (length (clients srv))..Workers (cfg srv) - 1]\<rparr>,
            map (\<lambda>j. NewClient (new_client env j)) [int (length (clients srv))..Workers (cfg srv) - 1]
              @ [Store_clientCount (Workers (cfg srv))])"
proof -
  have "int (length [int (length (clients srv))..Workers (cfg srv) - 1])
          = Workers (cfg srv) - int (length (clients srv))"
    using assms by simp
  then show ?thesis
    using assms by (simp add: reconcile_def grow_loop_tail Let_def)
qed

lemma reconcile_equal:
  "int (length (clients srv)) = Workers (cfg srv) \<Longrightarrow> reconcile env srv = (Returned None, srv, [])"
  by (simp add: reconcile_def Let_def)

lemma reconcile_returns:
  assumes "0 \<le> Workers (cfg srv)"
  shows "fst (reconcile env srv) = Returned None"
proof -
  consider "int (length (clients srv)) = Workers (cfg srv)"
    | "Workers (cfg srv) < int (length (clients srv))"
    | "int (length (clients srv)) < Workers (cfg srv)" by linarith
  then show ?thesis
    using assms by cases (simp_all add: reconcile_equal reconcile_shrink reconcile_grow)
qed

lemma clientsReset_connected:
  assumes "\<not> exiting srv" and "session_outcome env = Inr sess" and "describe_outcome env = Inr l"
  shows "clientsReset env srv =
           (case reconcile env (connected env sess srv) of
              (res, srv', evs) \<Rightarrow> (res, srv'\<lparr>reseting := False\<rparr>, connect_events sess l srv @ evs))"
  using assms by (simp add: clientsReset_def connected_def connect_events_def Let_def)

lemma stopped_connect_events: "stopped (connect_events sess l srv) = []"
  by (simp add: connect_events_def)

lemma created_connect_events: "created (connect_events sess l srv) = []"
  by (simp add: connect_events_def)

lemma reconcile_fields:
  "reconcile env srv = (res, srv', evs) \<Longrightarrow>
   errors srv' = errors srv \<and> failing srv' = failing srv \<and> exiting srv' = exiting srv"
  by (auto simp: reconcile_def Let_def split: if_splits prod.splits bool.splits)

lemma reconcile_not_error: "reconcile env srv \<noteq> (Returned (Some err), srv', evs)"
  by (simp add: reconcile_def Let_def split: prod.splits bool.splits)

subsection \<open>The outcome of clientsReset\<close>

lemma clientsReset_failed:
  assumes "\<not> exiting srv" and "\<not> connects env"
  shows "\<exists>err srv' evs. clientsReset env srv = (Returned (Some err), srv', evs)
           \<and> exiting srv' = exiting srv \<and> failing srv' = failing srv \<and> cfg srv' = cfg srv
           \<and> sleeps evs = []"
  using assms
  by (auto simp: clientsReset_def connects_def Let_def split: sum.splits)

lemma clientsReset_succeeds:
  assumes "\<not> exiting srv" and "connects env" and "0 \<le> Workers (cfg srv)"
  shows "\<exists>srv' evs. clientsReset env srv = (Returned None, srv', evs) \<and> \<not> failing srv'"
proof -
  from assms(2) obtain sess l where
    env: "session_outcome env = Inr sess" "describe_outcome env = Inr l"
    by (auto simp: connects_def split: sum.splits)
  obtain res srv' evs where r: "reconcile env (connected env sess srv) = (res, srv', evs)"
    by (cases "reconcile env (connected env sess srv)") auto
  from assms(3) have "fst (reconcile env (connected env sess srv)) = Returned None"
    by (intro reconcile_returns) (simp add: connected_def)
  with r have res: "res = Returned None" by simp
  from reconcile_fields [OF r] have "failing srv' = failing (connected env sess srv)"
    by simp
  then have "\<not> failing srv'" by (simp add: connected_def)
  with r res show ?thesis
    by (simp add: clientsReset_connected [OF assms(1) env])
qed

lemma clientsReset_negative_target:
  assumes "\<not> exiting srv" and "connects env" and "Workers (cfg srv) < 0"
  shows "fst (clientsReset env srv) = Panicked"
proof -
  from assms(2) obtain sess l where
    env: "session_outcome env = Inr sess" "describe_outcome env = Inr l"
    by (auto simp: connects_def split: sum.splits)
  have "fst (shrink_loop (int (length (clients srv))) (Workers (cfg srv)) (clients srv)) = False"
    using assms(3) by (intro shrink_loop_negative) simp_all
  with assms(3) have "fst (reconcile env (connected env sess srv)) = Panicked"
    by (auto simp: reconcile_def connected_def Let_def split: prod.splits bool.splits)
  then show ?thesis
    by (cases "reconcile env (connected env sess srv)")
      (simp add: clientsReset_connected [OF assms(1) env])
qed

text \<open>When an invocation returns \<open>nil\<close>.\<close>

lemma clientsReset_nil_iff:
  "fst (clientsReset env srv) = Returned None \<longleftrightarrow>
     exiting srv \<or> (connects env \<and> 0 \<le> Workers (cfg srv))"
proof (cases "exiting srv")
  case True
  then show ?thesis by (simp add: clientsReset_def)
next
  case False
  show ?thesis
  proof (cases "connects env")
    case no: False
    from clientsReset_failed [OF False no] False no show ?thesis by auto
  next
    case True
    show ?thesis
    proof (cases "0 \<le> Workers (cfg srv)")
      case ok: True
      from clientsReset_succeeds [OF False True ok] True ok show ?thesis by auto
    next
      case neg: False
      then have "fst (clientsReset env srv) = Panicked"
        using False True by (intro clientsReset_negative_target) simp_all
      with False neg show ?thesis by simp
    qed
  qed
qed

subsection \<open>The loop of retry\<close>

lemma retry_loop_returns:
  "failing srv \<Longrightarrow> env \<in> set envs \<Longrightarrow> exiting srv \<or> (connects env \<and> 0 \<le> Workers (cfg srv)) \<Longrightarrow>
   \<exists>srv' evs. retry_loop envs tries srv = (Retry_returned, srv', evs) \<and> failing srv' = exiting srv"
proof (induction envs arbitrary: tries srv)
  case Nil
  then show ?case by simp
next
  case (Cons e es)
  show ?case
  proof (cases "exiting srv")
    case True
    with Cons.prems(1) show ?thesis by (simp add: clientsReset_def)
  next
    case False
    with Cons.prems(3) have env: "connects env" and target: "0 \<le> Workers (cfg srv)" by simp_all
    show ?thesis
    proof (cases "connects e")
      case True
      from clientsReset_succeeds [OF False True target] False
      show ?thesis by auto
    next
      case no: False
      from clientsReset_failed [OF False no] obtain err srv1 evs1 where
        r: "clientsReset e srv = (Returned (Some err), srv1, evs1)"
        and keep: "exiting srv1 = exiting srv" "failing srv1 = failing srv" "cfg srv1 = cfg srv"
        by blast
      from Cons.prems(2) env no have "env \<in> set es" by auto
      then have "\<exists>srv' evs. retry_loop es (tries + 1) srv1 = (Retry_returned, srv', evs)
              \<and> failing srv' = exiting srv1"
        using Cons.prems(1) keep env target by (intro Cons.IH) simp_all
      with keep obtain srv' evs where
        "retry_loop es (tries + 1) srv1 = (Retry_returned, srv', evs)" "failing srv' = exiting srv"
        by auto
      with r show ?thesis by (simp add: Let_def)
    qed
  qed
qed

lemma retry_loop_sleeps:
  "\<not> exiting srv \<Longrightarrow> \<forall>e\<in>set envs. \<not> connects e \<Longrightarrow>
   retry_loop envs tries srv = (st, srv', evs) \<Longrightarrow>
   st = Retry_running \<and>
   sleeps evs = map (\<lambda>j. if maxConnectionsTries \<le> tries + 1 + int j then connectionRetry * 2
                           else connectionRetry) [0..<length envs]"
proof (induction envs arbitrary: tries srv st srv' evs)
  case Nil
  then show ?case by simp
next
  case (Cons e es)
  from Cons.prems have no: "\<not> connects e" by simp
  from clientsReset_failed [OF Cons.prems(1) no] obtain err srv1 evs1 where
    r: "clientsReset e srv = (Returned (Some err), srv1, evs1)"
    and keep: "exiting srv1 = exiting srv" "sleeps evs1 = []"
    by blast
  obtain st2 srv2 evs2 where l: "retry_loop es (tries + 1) srv1 = (st2, srv2, evs2)"
    by (cases "retry_loop es (tries + 1) srv1") auto
  have ih: "st2 = Retry_running \<and>
      sleeps evs2 = map (\<lambda>j. if maxConnectionsTries \<le> tries + 1 + 1 + int j then connectionRetry * 2
                              else connectionRetry) [0..<length es]"
    using Cons.prems(1,2) keep l by (intro Cons.IH) simp_all
  have "[0..<Suc (length es)] = 0 # [Suc 0..<Suc (length es)]"
    by (rule upt_conv_Cons) simp
  then have upt: "[0..<length (e # es)] = 0 # map Suc [0..<length es]"
    by (simp only: map_Suc_upt length_Cons)
  from Cons.prems(3) r l have
    "st = st2" and
    "evs = evs1 @ [Log_attempts (tries + 1),
              Sleep (if maxConnectionsTries \<le> tries + 1 then connectionRetry * 2 else connectionRetry)] @ evs2"
    by (simp_all add: Let_def)
  with ih keep show ?case
    unfolding upt by (simp add: sleeps_append o_def add.assoc)
qed

subsection \<open>Sequences of calls of failure\<close>

lemma time_Sub_window:
  "errorsFrame < t - u \<Longrightarrow> errorsFrame < time_Sub t u"
  by (simp add: time_Sub_def errorsFrame_def maxDuration_def minDuration_def Second_def)

lemma failure_flags:
  "reseting (fst (failure now1 now2 srv)) = reseting srv"
  "exiting (fst (failure now1 now2 srv)) = exiting srv"
  by (simp_all add: failure_def Let_def)

lemma failure_lastError:
  "\<not> reseting srv \<Longrightarrow> \<not> exiting srv \<Longrightarrow> lastError (fst (failure now1 now2 srv)) = now2"
  by (simp add: failure_def Let_def)

lemma failure_reset:
  "\<not> reseting srv \<Longrightarrow> \<not> exiting srv \<Longrightarrow> time_Sub now1 (lastError srv) > errorsFrame \<Longrightarrow>
   errors (fst (failure now1 now2 srv)) = 1"
  by (simp add: failure_def Let_def)

lemma failures_Cons_fst:
  "fst (failures ((now1, now2) # ts) srv) = fst (failures ts (fst (failure now1 now2 srv)))"
  by (simp split: prod.splits)

lemma failures_flags:
  "reseting (fst (failures ts srv)) = reseting srv \<and> exiting (fst (failures ts srv)) = exiting srv"
proof (induction ts arbitrary: srv)
  case Nil
  show ?case by simp
next
  case (Cons t ts)
  obtain now1 now2 where t: "t = (now1, now2)" by (cases t)
  from Cons.IH [of "fst (failure now1 now2 srv)"] show ?case
    unfolding t failures_Cons_fst by (simp add: failure_flags)
qed

lemma failures_append:
  "fst (failures (ts @ us) srv) = fst (failures us (fst (failures ts srv)))"
proof (induction ts arbitrary: srv)
  case Nil
  show ?case by simp
next
  case (Cons t ts)
  obtain now1 now2 where t: "t = (now1, now2)" by (cases t)
  from Cons.IH [of "fst (failure now1 now2 srv)"] show ?case
    unfolding t append_Cons failures_Cons_fst .
qed

subsection \<open>Goroutines and the lock\<close>

lemmas example_evals =
  example_schedule_def example_system_def initial_system_def example_server_def
  goroutine_at_def failure_def time_Sub_def maxDuration_def minDuration_def errorsFrame_def Second_def
  maxErrors_def clientsReset_def env_no_stream_def env_connected_def Let_def reconcile_def

lemma failure_Go_retry:
  "Go_retry \<in> set (snd (failure now1 now2 srv)) \<longleftrightarrow>
     \<not> reseting srv \<and> \<not> exiting srv \<and> maxErrors < errors (fst (failure now1 now2 srv))"
  by (simp add: failure_def Let_def)

lemma step_Run_failure:
  assumes "step (Run_failure i now1 now2) sys = Some sys'"
  shows "lock_holder sys' = None"
    and "srv_state sys' = fst (failure now1 now2 (srv_state sys))"
    and "goroutines sys' = (goroutines sys)[i := Done]
           @ (if \<not> reseting (srv_state sys) \<and> \<not> exiting (srv_state sys)
                 \<and> maxErrors < errors (srv_state sys') then [In_retry] else [])"
proof -
  obtain srv' evs where f: "failure now1 now2 (srv_state sys) = (srv', evs)"
    by (cases "failure now1 now2 (srv_state sys)") auto
  with assms have sys': "sys' = sys\<lparr>srv_state := srv',
      goroutines := (goroutines sys)[i := Done] @ (if Go_retry \<in> set evs then [In_retry] else [])\<rparr>"
    and free: "lock_holder sys = None"
    by (auto split: if_splits)
  from sys' free show "lock_holder sys' = None" by simp
  from sys' f show st: "srv_state sys' = fst (failure now1 now2 (srv_state sys))" by simp
  from sys' have gs: "goroutines sys' = (goroutines sys)[i := Done]
      @ (if Go_retry \<in> set evs then [In_retry] else [])"
    by simp
  from failure_Go_retry [of now1 now2 "srv_state sys"] f st
  have iff: "Go_retry \<in> set evs \<longleftrightarrow>
      \<not> reseting (srv_state sys) \<and> \<not> exiting (srv_state sys) \<and> maxErrors < errors (srv_state sys')"
    by simp
  from gs show "goroutines sys' = (goroutines sys)[i := Done]
           @ (if \<not> reseting (srv_state sys) \<and> \<not> exiting (srv_state sys)
                 \<and> maxErrors < errors (srv_state sys') then [In_retry] else [])"
    unfolding iff .
qed

lemma lock_inv_blocks:
  assumes "lock_inv sys" and "i < length (goroutines sys)" and "is_looping (goroutines sys ! i)"
  shows "step (Run_failure j now1 now2) sys = None"
    and "step (Enter_retry j) sys = None"
    and "j < length (goroutines sys) \<Longrightarrow> is_looping (goroutines sys ! j) \<Longrightarrow> j = i"
proof -
  from assms have holder: "lock_holder sys = Some i" by (simp add: lock_inv_def)
  then show "step (Run_failure j now1 now2) sys = None" and "step (Enter_retry j) sys = None"
    by simp_all
  assume "j < length (goroutines sys)" and "is_looping (goroutines sys ! j)"
  with assms(1) have "lock_holder sys = Some j" by (simp add: lock_inv_def)
  with holder show "j = i" by simp
qed

lemma lock_inv_initial: "lock_inv (initial_system srv)"
  by (simp add: lock_inv_def initial_system_def)

lemma lock_inv_holder:
  "lock_inv sys \<Longrightarrow> goroutine_at sys i = Some (In_retry_loop tries) \<Longrightarrow> lock_holder sys = Some i"
  by (auto simp: lock_inv_def goroutine_at_def split: if_splits)

lemma lock_inv_step:
  assumes "lock_inv sys" and "step a sys = Some sys'"
  shows "lock_inv sys'"
proof (cases a)
  case Call_failure
  with assms show ?thesis
    by (auto simp: lock_inv_def nth_append split: if_splits)
next
  case (Run_failure i now1 now2)
  with assms show ?thesis
    by (auto simp: lock_inv_def goroutine_at_def nth_append nth_list_update split: if_splits prod.splits)
next
  case (Enter_retry i)
  with assms show ?thesis
    by (auto simp: lock_inv_def goroutine_at_def nth_list_update split: if_splits)
next
  case (Iterate_retry i env)
  with assms(2) obtain tries where at: "goroutine_at sys i = Some (In_retry_loop tries)"
    by (auto split: if_splits option.splits goroutine.splits)
  with assms(1) have holder: "lock_holder sys = Some i" by (rule lock_inv_holder)
  obtain st srv' evs where r: "retry_loop [env] tries (srv_state sys) = (st, srv', evs)"
    by (cases "retry_loop [env] tries (srv_state sys)") auto
  show ?thesis
  proof (cases st)
    case Retry_returned
    with assms(2) Iterate_retry at r have
      "sys' = sys\<lparr>srv_state := srv', lock_holder := None,
                   goroutines := (goroutines sys)[i := Done]\<rparr>"
      by (simp del: retry_loop.simps split: if_splits)
    with assms(1) holder show ?thesis
      by (auto simp: lock_inv_def nth_list_update)
  next
    case Retry_panicked
    with assms(2) Iterate_retry at r have
      "sys' = sys\<lparr>srv_state := srv', lock_holder := None,
                   goroutines := (goroutines sys)[i := Done], crashed := True\<rparr>"
      by (simp del: retry_loop.simps split: if_splits)
    with assms(1) holder show ?thesis
      by (auto simp: lock_inv_def nth_list_update)
  next
    case Retry_running
    with assms(2) Iterate_retry at r have
      "sys' = sys\<lparr>srv_state := srv',
                   goroutines := (goroutines sys)[i := In_retry_loop (tries + 1)]\<rparr>"
      by (simp del: retry_loop.simps split: if_splits)
    with assms(1) holder show ?thesis
      by (auto simp: lock_inv_def nth_list_update)
  qed
qed

lemma lock_inv_run:
  "lock_inv sys \<Longrightarrow> run acts sys = Some sys' \<Longrightarrow> lock_inv sys'"
  by (induction acts arbitrary: sys) (auto split: option.splits dest: lock_inv_step)

text \<open>The steps of one goroutine through \<open>retry\<close> compute what the function \<open>retry\<close> computes.\<close>

lemma retry_loop_Cons:
  "retry_loop (e # es) tries srv =
     (case retry_loop [e] tries srv of
        (Retry_running, srv', evs) \<Rightarrow>
          (case retry_loop es (tries + 1) srv' of (st, srv'', evs') \<Rightarrow> (st, srv'', evs @ evs'))
      | r \<Rightarrow> r)"
  by (simp add: Let_def split: prod.splits outcome.splits option.splits)

lemma run_retry_loop:
  assumes "goroutine_at sys i = Some (In_retry_loop tries)" and "\<not> crashed sys"
  shows "\<exists>n sys'. n \<le> length envs
           \<and> run (map (Iterate_retry i) (take n envs)) sys = Some sys'
           \<and> srv_state sys' = fst (snd (retry_loop envs tries (srv_state sys)))
           \<and> (fst (retry_loop envs tries (srv_state sys)) = Retry_running
                \<longleftrightarrow> is_looping (goroutines sys' ! i))"
  using assms
proof (induction envs arbitrary: tries sys)
  case Nil
  then show ?case by (auto simp: goroutine_at_def split: if_splits)
next
  case (Cons e es)
  obtain st srv1 evs1 where r: "retry_loop [e] tries (srv_state sys) = (st, srv1, evs1)"
    by (cases "retry_loop [e] tries (srv_state sys)") auto
  from Cons.prems have i: "i < length (goroutines sys)"
    by (simp add: goroutine_at_def split: if_splits)
  show ?case
  proof (cases st)
    case Retry_running
    define sys1 where "sys1 = sys\<lparr>srv_state := srv1,
        goroutines := (goroutines sys)[i := In_retry_loop (tries + 1)]\<rparr>"
    from Cons.prems r Retry_running have s: "step (Iterate_retry i e) sys = Some sys1"
      by (simp add: sys1_def del: retry_loop.simps)
    from Cons.prems i have "goroutine_at sys1 i = Some (In_retry_loop (tries + 1))" "\<not> crashed sys1"
      by (simp_all add: sys1_def goroutine_at_def)
    from Cons.IH [OF this] obtain n sys' where
      n: "n \<le> length es" "run (map (Iterate_retry i) (take n es)) sys1 = Some sys'"
        "srv_state sys' = fst (snd (retry_loop es (tries + 1) (srv_state sys1)))"
        "fst (retry_loop es (tries + 1) (srv_state sys1)) = Retry_running
           \<longleftrightarrow> is_looping (goroutines sys' ! i)"
      by blast
    have "retry_loop (e # es) tries (srv_state sys) =
        (case retry_loop es (tries + 1) srv1 of (st, srv'', evs') \<Rightarrow> (st, srv'', evs1 @ evs'))"
      by (simp only: retry_loop_Cons [of e es tries "srv_state sys"] r Retry_running prod.case status.case)
    then have "fst (retry_loop (e # es) tries (srv_state sys)) = fst (retry_loop es (tries + 1) srv1)"
      and "fst (snd (retry_loop (e # es) tries (srv_state sys)))
             = fst (snd (retry_loop es (tries + 1) srv1))"
      by (simp_all split: prod.splits)
    with n s have "Suc n \<le> length (e # es)
        \<and> run (map (Iterate_retry i) (take (Suc n) (e # es))) sys = Some sys'
        \<and> srv_state sys' = fst (snd (retry_loop (e # es) tries (srv_state sys)))
        \<and> (fst (retry_loop (e # es) tries (srv_state sys)) = Retry_running
              \<longleftrightarrow> is_looping (goroutines sys' ! i))"
      by (simp add: sys1_def del: retry_loop.simps step.simps)
    then show ?thesis by blast
  next
    case Retry_returned
    define sys1 where "sys1 = sys\<lparr>srv_state := srv1, lock_holder := None,
        goroutines := (goroutines sys)[i := Done]\<rparr>"
    from Cons.prems r Retry_returned have s: "step (Iterate_retry i e) sys = Some sys1"
      by (simp add: sys1_def del: retry_loop.simps)
    have "retry_loop (e # es) tries (srv_state sys) = (Retry_returned, srv1, evs1)"
      by (simp only: retry_loop_Cons [of e es tries "srv_state sys"] r Retry_returned prod.case status.case)
    with s i have "Suc 0 \<le> length (e # es)
        \<and> run (map (Iterate_retry i) (take (Suc 0) (e # es))) sys = Some sys1
        \<and> srv_state sys1 = fst (snd (retry_loop (e # es) tries (srv_state sys)))
        \<and> (fst (retry_loop (e # es) tries (srv_state sys)) = Retry_running
              \<longleftrightarrow> is_looping (goroutines sys1 ! i))"
      by (simp add: sys1_def del: retry_loop.simps step.simps)
    then show ?thesis by blast
  next
    case Retry_panicked
    define sys1 where "sys1 = sys\<lparr>srv_state := srv1, lock_holder := None,
        goroutines := (goroutines sys)[i := Done], crashed := True\<rparr>"
    from Cons.prems r Retry_panicked have s: "step (Iterate_retry i e) sys = Some sys1"
      by (simp add: sys1_def del: retry_loop.simps)
    have "retry_loop (e # es) tries (srv_state sys) = (Retry_panicked, srv1, evs1)"
      by (simp only: retry_loop_Cons [of e es tries "srv_state sys"] r Retry_panicked prod.case status.case)
    with s i have "Suc 0 \<le> length (e # es)
        \<and> run (map (Iterate_retry i) (take (Suc 0) (e # es))) sys = Some sys1
        \<and> srv_state sys1 = fst (snd (retry_loop (e # es) tries (srv_state sys)))
        \<and> (fst (retry_loop (e # es) tries (srv_state sys)) = Retry_running
              \<longleftrightarrow> is_looping (goroutines sys1 ! i))"
      by (simp add: sys1_def del: retry_loop.simps step.simps)
    then show ?thesis by blast
  qed
qed

lemma run_retry:
  assumes "goroutine_at sys i = Some In_retry" and "lock_holder sys = None" and "\<not> crashed sys"
  shows "\<exists>n sys'. n \<le> length envs
           \<and> run (Enter_retry i # map (Iterate_retry i) (take n envs)) sys = Some sys'
           \<and> srv_state sys' = fst (snd (retry envs (srv_state sys)))
           \<and> (fst (retry envs (srv_state sys)) = Retry_running
                \<longleftrightarrow> is_looping (goroutines sys' ! i))"
proof (cases "failing (srv_state sys)")
  case True
  with assms have "run (Enter_retry i # map (Iterate_retry i) (take 0 envs)) sys
      = Some (sys\<lparr>goroutines := (goroutines sys)[i := Done]\<rparr>)"
    by simp
  moreover from assms have "i < length (goroutines sys)" by (simp add: goroutine_at_def split: if_splits)
  ultimately show ?thesis
    using True by (intro exI [of _ 0] exI [of _ "sys\<lparr>goroutines := (goroutines sys)[i := Done]\<rparr>"])
      (simp add: retry_def)
next
  case False
  define sys1 where "sys1 = sys\<lparr>srv_state := (srv_state sys)\<lparr>failing := True\<rparr>,
      lock_holder := Some i, goroutines := (goroutines sys)[i := In_retry_loop 0]\<rparr>"
  from assms False have s: "step (Enter_retry i) sys = Some sys1"
    by (simp add: sys1_def)
  from assms have "goroutine_at sys1 i = Some (In_retry_loop 0)" "\<not> crashed sys1"
    by (simp_all add: sys1_def goroutine_at_def split: if_splits)
  from run_retry_loop [OF this, of envs] obtain n sys' where
    "n \<le> length envs" "run (map (Iterate_retry i) (take n envs)) sys1 = Some sys'"
    "srv_state sys' = fst (snd (retry_loop envs 0 (srv_state sys1)))"
    "fst (retry_loop envs 0 (srv_state sys1)) = Retry_running \<longleftrightarrow> is_looping (goroutines sys' ! i)"
    by blast
  with s False show ?thesis
    by (intro exI [of _ n] exI [of _ sys']) (simp add: retry_def sys1_def)
qed

section \<open>Properties\<close>

text \<open>
  C5. If \<open>exiting\<close> is set when \<open>clientsReset\<close> is invoked, it returns \<open>nil\<close> at once: it
  performs no effect at all (no session is created, no stream is described, no client is
  stopped or created) and the server state is the one it was given.
\<close>

theorem clientsReset_exiting:
  "exiting srv \<Longrightarrow> clientsReset env srv = (Returned None, srv, [])"
  by (simp add: clientsReset_def)

theorem clientsReset_exiting_witness:
  "exiting (example_server [10, 11, 12] 2\<lparr>exiting := True\<rparr>)
   \<and> clientsReset env_connected (example_server [10, 11, 12] 2\<lparr>exiting := True\<rparr>)
       = (Returned None, example_server [10, 11, 12] 2\<lparr>exiting := True\<rparr>, [])"
  using clientsReset_exiting [of "example_server [10, 11, 12] 2\<lparr>exiting := True\<rparr>" env_connected]
  by simp

text \<open>
  C1, as stated, at its own example. With five clients and a target of two, the loop runs
  for \<open>i = 5, 4, 3\<close>: the clients at indices 4, 3 and 2 are stopped and two clients remain.
  The claim's "stops the clients at indices 4 and 3 and leaves the clients 0, 1, 2" is not
  what happens.
\<close>

theorem clientsReset_five_to_two_counterexample:
  "fst (clientsReset env_connected (example_server [10, 11, 12, 13, 14] 2)) = Returned None
   \<and> stopped (snd (snd (clientsReset env_connected (example_server [10, 11, 12, 13, 14] 2))))
       = [14, 13, 12]
   \<and> clients (fst (snd (clientsReset env_connected (example_server [10, 11, 12, 13, 14] 2))))
       = [10, 11]"
  by (simp add: clientsReset_def env_connected_def example_server_def reconcile_def Let_def
      shrink_loop.simps stopped_append)

text \<open>
  C1, amended. When \<open>clientsReset\<close> reaches the reconciliation (not exiting, session and
  stream description obtained) with more clients than the target, and the target is not
  negative, it returns \<open>nil\<close>; the clients stopped are exactly those at the indices from
  the target upwards, the one with the highest index first; the clients kept are the first
  \<open>target\<close> ones, in their order; no client is created. From five clients to a target of
  two, the clients at indices 4, 3, 2 are stopped in this order and the clients 0, 1 remain.
\<close>

theorem clientsReset_shrinks:
  assumes "\<not> exiting srv"
    and "session_outcome env = Inr sess" and "describe_outcome env = Inr l"
    and "0 \<le> Workers (cfg srv)" and "Workers (cfg srv) < int (length (clients srv))"
  shows "\<exists>srv' evs. clientsReset env srv = (Returned None, srv', evs)
           \<and> clients srv' = take (nat (Workers (cfg srv))) (clients srv)
           \<and> stopped evs = rev (drop (nat (Workers (cfg srv))) (clients srv))
           \<and> created evs = []"
  using assms
  by (simp add: clientsReset_connected reconcile_shrink connected_def
      stopped_append created_append stopped_map_Exit created_map_Exit
      stopped_connect_events created_connect_events)

theorem clientsReset_shrinks_witness:
  "\<not> exiting (example_server [10, 11, 12, 13, 14] 2)
   \<and> session_outcome env_connected = Inr 1
   \<and> describe_outcome env_connected = Inr example_description
   \<and> 0 \<le> Workers (cfg (example_server [10, 11, 12, 13, 14] 2))
   \<and> Workers (cfg (example_server [10, 11, 12, 13, 14] 2))
       < int (length (clients (example_server [10, 11, 12, 13, 14] 2)))
   \<and> (\<exists>srv' evs. clientsReset env_connected (example_server [10, 11, 12, 13, 14] 2)
          = (Returned None, srv', evs)
        \<and> clients srv' = [10, 11] \<and> stopped evs = [14, 13, 12] \<and> created evs = [])"
  using clientsReset_shrinks [of "example_server [10, 11, 12, 13, 14] 2" env_connected 1
      example_description]
  by (simp add: example_server_def env_connected_def)

text \<open>
  C8. When \<open>clientsReset\<close> reaches the reconciliation with fewer clients than the target,
  it returns \<open>nil\<close>; the new list of clients is the old one followed by the clients just
  created, which are \<open>target - current\<close> in number; no client is stopped. From two clients
  to a target of five, three clients are appended after the two old ones.
\<close>

theorem clientsReset_grows:
  assumes "\<not> exiting srv"
    and "session_outcome env = Inr sess" and "describe_outcome env = Inr l"
    and "int (length (clients srv)) < Workers (cfg srv)"
  shows "\<exists>srv' evs. clientsReset env srv = (Returned None, srv', evs)
           \<and> clients srv' = clients srv @ created evs
           \<and> int (length (created evs)) = Workers (cfg srv) - int (length (clients srv))
           \<and> created evs = map (new_client env) [int (length (clients srv))..Workers (cfg srv) - 1]
           \<and> stopped evs = []"
proof -
  have *: "map (\<lambda>j. NewClient (new_client env j)) js = map NewClient (map (new_client env) js)" for js
    by simp
  show ?thesis
  using assms
  by (simp add: clientsReset_connected reconcile_grow connected_def
      stopped_append created_append * stopped_map_New created_map_New
      stopped_connect_events created_connect_events del: map_map)
qed

theorem clientsReset_grows_witness:
  "\<not> exiting (example_server [10, 11] 5)
   \<and> session_outcome env_connected = Inr 1
   \<and> describe_outcome env_connected = Inr example_description
   \<and> int (length (clients (example_server [10, 11] 5))) < Workers (cfg (example_server [10, 11] 5))
   \<and> (\<exists>srv' evs. clientsReset env_connected (example_server [10, 11] 5)
          = (Returned None, srv', evs)
        \<and> clients srv' = [10, 11, 102, 103, 104] \<and> created evs = [102, 103, 104]
        \<and> stopped evs = [])"
  using clientsReset_grows [of "example_server [10, 11] 5" env_connected 1 example_description]
  by (auto simp add: example_server_def env_connected_def upto.simps)

text \<open>
  C9. When the number of clients equals the target on entry, an invocation of
  \<open>clientsReset\<close> leaves the list of clients as it is, stops no client and creates none,
  whatever the outcome of the remote calls.
\<close>

theorem clientsReset_equal_count:
  assumes "int (length (clients srv)) = Workers (cfg srv)"
    and "clientsReset env srv = (res, srv', evs)"
  shows "clients srv' = clients srv \<and> stopped evs = [] \<and> created evs = []"
  using assms
  by (auto simp: clientsReset_def Let_def reconcile_equal split: if_splits sum.splits)

theorem clientsReset_equal_count_witness:
  "int (length (clients (example_server [10, 11] 2))) = Workers (cfg (example_server [10, 11] 2))
   \<and> (\<exists>res srv' evs. clientsReset env_connected (example_server [10, 11] 2) = (res, srv', evs)
        \<and> clients srv' = [10, 11] \<and> stopped evs = [] \<and> created evs = [])"
proof -
  obtain res srv' evs where
    r: "clientsReset env_connected (example_server [10, 11] 2) = (res, srv', evs)"
    by (cases "clientsReset env_connected (example_server [10, 11] 2)") auto
  have h: "int (length (clients (example_server [10, 11] 2)))
             = Workers (cfg (example_server [10, 11] 2))"
    by (simp add: example_server_def)
  from clientsReset_equal_count [OF h r] have
    "clients srv' = [10, 11] \<and> stopped evs = [] \<and> created evs = []"
    by (simp add: example_server_def)
  with h r show ?thesis by blast
qed

text \<open>
  C2, as stated, at three failed attempts. The third sleep is \<open>2 * connectionRetry\<close>,
  although \<open>3 \<le> maxConnectionsTries\<close>: the test of the source is
  \<open>tries >= maxConnectionsTries\<close>, made after \<open>tries\<close> has been incremented.
\<close>

theorem retry_third_sleep_counterexample:
  "(3::int) \<le> maxConnectionsTries
   \<and> sleeps (snd (snd (retry [env_no_stream, env_no_session, env_no_stream]
                          (example_server [10, 11] 3))))
       = [connectionRetry, connectionRetry, 2 * connectionRetry]
   \<and> 2 * connectionRetry \<noteq> connectionRetry"
  by (simp add: retry_def clientsReset_def env_no_stream_def env_no_session_def env_connected_def
      example_server_def Let_def maxConnectionsTries_def connectionRetry_def Second_def sleeps_append)

text \<open>
  C2, amended. While every attempt fails, each attempt is followed by exactly one sleep,
  and the sleep after attempt \<open>n\<close> (counted from 1) lasts \<open>connectionRetry\<close> if
  \<open>n < maxConnectionsTries\<close> and \<open>2 * connectionRetry\<close> if \<open>n \<ge> maxConnectionsTries\<close>;
  the method has not returned.
\<close>

theorem retry_backoff:
  assumes "\<not> failing srv" and "\<not> exiting srv" and "\<forall>e\<in>set envs. \<not> connects e"
    and "retry envs srv = (st, srv', evs)"
  shows "st = Retry_running \<and> length (sleeps evs) = length envs \<and>
         (\<forall>n. 1 \<le> n \<and> n \<le> length envs \<longrightarrow>
            sleeps evs ! (n - 1) =
              (if int n < maxConnectionsTries then connectionRetry else 2 * connectionRetry))"
proof -
  from assms have "retry_loop envs 0 (srv\<lparr>failing := True\<rparr>) = (st, srv', evs)"
    by (simp add: retry_def)
  from retry_loop_sleeps [OF _ assms(3) this] assms(2) have
    st: "st = Retry_running" and
    sl: "sleeps evs = map (\<lambda>j. if maxConnectionsTries \<le> 0 + 1 + int j then connectionRetry * 2
                           else connectionRetry) [0..<length envs]"
    by simp_all
  have "sleeps evs ! (n - 1) =
          (if int n < maxConnectionsTries then connectionRetry else 2 * connectionRetry)"
    if "1 \<le> n" "n \<le> length envs" for n
  proof -
    from that have "n - 1 < length envs" by simp
    then have "sleeps evs ! (n - 1) =
        (if maxConnectionsTries \<le> 0 + 1 + int (n - 1) then connectionRetry * 2 else connectionRetry)"
      unfolding sl by simp
    also from that have "0 + 1 + int (n - 1) = int n" by simp
    finally show ?thesis by auto
  qed
  then have pt: "\<forall>n. 1 \<le> n \<and> n \<le> length envs \<longrightarrow>
            sleeps evs ! (n - 1) =
              (if int n < maxConnectionsTries then connectionRetry else 2 * connectionRetry)"
    by blast
  have len: "length (sleeps evs) = length envs"
    unfolding sl by simp
  from st len pt show ?thesis by blast
qed

theorem retry_backoff_witness:
  "\<not> failing (example_server [10, 11] 3) \<and> \<not> exiting (example_server [10, 11] 3)
   \<and> \<not> connects env_no_stream \<and> \<not> connects env_no_session
   \<and> fst (retry [env_no_stream, env_no_session, env_no_stream, env_no_session]
            (example_server [10, 11] 3)) = Retry_running
   \<and> sleeps (snd (snd (retry [env_no_stream, env_no_session, env_no_stream, env_no_session]
                          (example_server [10, 11] 3)))) ! 1 = 5000000000
   \<and> sleeps (snd (snd (retry [env_no_stream, env_no_session, env_no_stream, env_no_session]
                          (example_server [10, 11] 3)))) ! 2 = 10000000000"
proof -
  let ?envs = "[env_no_stream, env_no_session, env_no_stream, env_no_session]"
  let ?srv = "example_server [10, 11] 3"
  have h1: "\<not> failing ?srv" and h2: "\<not> exiting ?srv"
    by (simp_all add: example_server_def)
  have h3: "\<forall>e\<in>set ?envs. \<not> connects e"
    by (simp add: connects_def env_no_stream_def env_no_session_def env_connected_def)
  have h4: "retry ?envs ?srv
      = (fst (retry ?envs ?srv), fst (snd (retry ?envs ?srv)), snd (snd (retry ?envs ?srv)))"
    by simp
  from retry_backoff [OF h1 h2 h3 h4] have
    st: "fst (retry ?envs ?srv) = Retry_running" and
    pt: "\<And>n. 1 \<le> n \<Longrightarrow> n \<le> length ?envs \<Longrightarrow>
           sleeps (snd (snd (retry ?envs ?srv))) ! (n - 1) =
             (if int n < maxConnectionsTries then connectionRetry else 2 * connectionRetry)"
    by blast+
  from pt [of 2] have "sleeps (snd (snd (retry ?envs ?srv))) ! 1 = 5000000000"
    by (simp add: maxConnectionsTries_def connectionRetry_def Second_def)
  moreover from pt [of 3] have "sleeps (snd (snd (retry ?envs ?srv))) ! 2 = 10000000000"
    by (simp add: maxConnectionsTries_def connectionRetry_def Second_def)
  moreover from h3 have "\<not> connects env_no_stream" "\<not> connects env_no_session"
    by simp_all
  ultimately show ?thesis using h1 h2 st by blast
qed

text \<open>
  C3. In every sequence of calls of \<open>failure\<close> on a server that is neither reseting nor
  exiting, when a call reads the clock more than \<open>errorsFrame\<close> after the time that the
  call before it has stored in \<open>lastError\<close>, the counter \<open>errors\<close> is 1 after it, whatever
  it was before.
\<close>

theorem failure_window_reset:
  assumes "\<not> reseting srv" and "\<not> exiting srv"
    and "now1' - now2 > errorsFrame"
  shows "errors (fst (failures (ts @ [(now1, now2), (now1', now2')]) srv)) = 1"
proof -
  define srv1 where "srv1 = fst (failures ts srv)"
  define srv2 where "srv2 = fst (failure now1 now2 srv1)"
  from assms(1,2) have f1: "\<not> reseting srv1" "\<not> exiting srv1"
    by (simp_all add: srv1_def failures_flags)
  then have f2: "\<not> reseting srv2" "\<not> exiting srv2" and l2: "lastError srv2 = now2"
    by (simp_all add: srv2_def failure_flags failure_lastError)
  have "fst (failures (ts @ [(now1, now2), (now1', now2')]) srv) = fst (failure now1' now2' srv2)"
    unfolding failures_append srv1_def srv2_def failures_Cons_fst by simp
  with failure_reset [OF f2, of now1' now2'] time_Sub_window [OF assms(3)] l2 show ?thesis by simp
qed

theorem failure_window_reset_witness:
  "\<not> reseting (example_server [] 0) \<and> \<not> exiting (example_server [] 0)
   \<and> 20 * Second - (9 * Second + 1) > errorsFrame
   \<and> errors (fst (failures ([(8 * Second, 8 * Second + 1)]
                 @ [(9 * Second, 9 * Second + 1), (20 * Second, 20 * Second + 1)])
                (example_server [] 0))) = 1"
proof -
  have h1: "\<not> reseting (example_server [] 0)" and h2: "\<not> exiting (example_server [] 0)"
    by (simp_all add: example_server_def)
  have h3: "20 * Second - (9 * Second + 1) > errorsFrame"
    by (simp add: errorsFrame_def Second_def)
  from failure_window_reset [OF h1 h2 h3, of "[(8 * Second, 8 * Second + 1)]" "9 * Second"
      "20 * Second + 1"] h1 h2 h3
  show ?thesis by blast
qed

text \<open>
  C4, as stated, on the exiting path. \<open>retry\<close> sets \<open>failing\<close>, the exiting guard of
  \<open>clientsReset\<close> returns \<open>nil\<close> before anything is written, and \<open>retry\<close> returns with
  \<open>failing\<close> still set.
\<close>

theorem retry_exiting_counterexample:
  "fst (retry [env_connected] (example_server [10, 11] 2\<lparr>exiting := True\<rparr>)) = Retry_returned
   \<and> failing (fst (snd (retry [env_connected] (example_server [10, 11] 2\<lparr>exiting := True\<rparr>))))"
  by (simp add: retry_def clientsReset_def example_server_def)

text \<open>
  C4, amended. An invocation of \<open>clientsReset\<close> returns \<open>nil\<close> exactly when the server is
  exiting, or both remote calls succeed and the target number of clients is not negative.
  When \<open>retry\<close> enters its loop (\<open>failing\<close> was not set) and this holds for one of the
  attempts, \<open>retry\<close> returns. After it, \<open>failing\<close> is false when the \<open>nil\<close> came from a
  completed reconciliation and still true when it came from the exiting guard.
\<close>

theorem retry_returns_on_nil:
  assumes "\<not> failing srv" and "env \<in> set envs"
    and "exiting srv \<or> (connects env \<and> 0 \<le> Workers (cfg srv))"
  shows "\<exists>srv' evs. retry envs srv = (Retry_returned, srv', evs) \<and> failing srv' = exiting srv"
  using assms retry_loop_returns [of "srv\<lparr>failing := True\<rparr>" env envs 0]
  by (simp add: retry_def)

theorem retry_returns_on_nil_witness:
  "\<not> failing (example_server [10, 11] 3)
   \<and> env_connected \<in> set [env_no_stream, env_no_session, env_connected]
   \<and> connects env_connected \<and> 0 \<le> Workers (cfg (example_server [10, 11] 3))
   \<and> (\<exists>srv' evs. retry [env_no_stream, env_no_session, env_connected] (example_server [10, 11] 3)
          = (Retry_returned, srv', evs) \<and> \<not> failing srv')"
proof -
  let ?envs = "[env_no_stream, env_no_session, env_connected]"
  let ?srv = "example_server [10, 11] 3"
  have h1: "\<not> failing ?srv" and t: "0 \<le> Workers (cfg ?srv)" and ex: "\<not> exiting ?srv"
    by (simp_all add: example_server_def)
  have h2: "env_connected \<in> set ?envs" by simp
  have c: "connects env_connected" by (simp add: connects_def env_connected_def)
  with t have h3: "exiting ?srv \<or> (connects env_connected \<and> 0 \<le> Workers (cfg ?srv))" by simp
  from retry_returns_on_nil [OF h1 h2 h3] ex h1 h2 c t
  show ?thesis by auto
qed

text \<open>
  C6, as stated, on the exiting path: \<open>clientsReset\<close> returns \<open>nil\<close> and the counter keeps
  its value 4.
\<close>

theorem clientsReset_exiting_errors_counterexample:
  "fst (clientsReset env_connected (example_server [10, 11] 2\<lparr>exiting := True\<rparr>)) = Returned None
   \<and> errors (fst (snd (clientsReset env_connected (example_server [10, 11] 2\<lparr>exiting := True\<rparr>)))) = 4"
  by (simp add: clientsReset_def example_server_def)

text \<open>
  C6, amended. After an invocation of \<open>clientsReset\<close> that returns \<open>nil\<close>, \<open>errors\<close> is 0
  if the server was not exiting; if it was exiting, \<open>errors\<close> is what it was.
\<close>

theorem clientsReset_nil_errors:
  assumes "clientsReset env srv = (Returned None, srv', evs)"
  shows "errors srv' = (if exiting srv then errors srv else 0)"
proof (cases "exiting srv")
  case True
  with assms show ?thesis by (simp add: clientsReset_def)
next
  case False
  with assms obtain sess l where
    env: "session_outcome env = Inr sess" "describe_outcome env = Inr l"
    by (auto simp: clientsReset_def Let_def split: sum.splits)
  obtain res srv4 evs4 where r: "reconcile env (connected env sess srv) = (res, srv4, evs4)"
    by (cases "reconcile env (connected env sess srv)") auto
  from reconcile_fields [OF r] have "errors srv4 = errors (connected env sess srv)"
    by simp
  then have "errors srv4 = 0" by (simp add: connected_def)
  with assms r False show ?thesis
    by (auto simp: clientsReset_connected [OF False env])
qed

theorem clientsReset_nil_errors_witness:
  "clientsReset env_connected (example_server [10, 11] 5)
     = (Returned None, fst (snd (clientsReset env_connected (example_server [10, 11] 5))),
        snd (snd (clientsReset env_connected (example_server [10, 11] 5))))
   \<and> errors (example_server [10, 11] 5) = 4
   \<and> errors (fst (snd (clientsReset env_connected (example_server [10, 11] 5)))) = 0"
proof -
  let ?r = "clientsReset env_connected (example_server [10, 11] 5)"
  have "\<exists>srv' evs. ?r = (Returned None, srv', evs) \<and> \<not> failing srv'"
    by (intro clientsReset_succeeds) (simp_all add: example_server_def connects_def env_connected_def)
  then have h: "?r = (Returned None, fst (snd ?r), snd (snd ?r))" by auto
  from clientsReset_nil_errors [OF h] have "errors (fst (snd ?r)) = 0"
    by (simp add: example_server_def)
  moreover have "errors (example_server [10, 11] 5) = 4" by (simp add: example_server_def)
  ultimately show ?thesis using h by blast
qed

text \<open>
  C10, as stated, on the path of a failed stream description. The assignment to
  \<open>srv.awsSvc\<close> of line 97 precedes the call of \<open>DescribeDeliveryStream\<close>: the service
  client of the server has been replaced when the error is returned.
\<close>

theorem clientsReset_error_awsSvc_counterexample:
  "fst (clientsReset env_no_stream (example_server [10, 11] 5)) = Returned (Some ''stream not found'')
   \<and> awsSvc (example_server [10, 11] 5) = None
   \<and> awsSvc (fst (snd (clientsReset env_no_stream (example_server [10, 11] 5))))
       = Some (Firehose_New 1 ''eu-west-1'')"
  by (simp add: clientsReset_def env_no_stream_def env_connected_def example_server_def Let_def)

text \<open>
  C10, amended. When \<open>clientsReset\<close> returns an error, the list of clients is as on entry,
  no client has been stopped or created, and the server differs from the one on entry in
  \<open>errors\<close> (one more), \<open>lastError\<close> (the clock), \<open>reseting\<close> (false) and, when the session
  was obtained and the stream description failed, \<open>awsSvc\<close> (the client made from the new
  session). \<open>failing\<close>, \<open>lastConnection\<close>, \<open>exiting\<close> and the configuration are unchanged.
\<close>

theorem clientsReset_error_frame:
  assumes "clientsReset env srv = (Returned (Some err), srv', evs)"
  shows "srv' = srv\<lparr>errors := errors srv + 1, lastError := clock env, reseting := False,
                   awsSvc := (case session_outcome env of
                                Inl e \<Rightarrow> awsSvc srv
                              | Inr sess \<Rightarrow> Some (Firehose_New sess (Region (cfg srv))))\<rparr>
         \<and> stopped evs = [] \<and> created evs = []"
  using assms
  by (auto simp: clientsReset_def Let_def reconcile_not_error split: if_splits sum.splits prod.splits)

theorem clientsReset_error_frame_witness:
  "clientsReset env_no_session (example_server [10, 11] 5)
     = (Returned (Some ''no credentials''),
        fst (snd (clientsReset env_no_session (example_server [10, 11] 5))),
        snd (snd (clientsReset env_no_session (example_server [10, 11] 5))))
   \<and> fst (snd (clientsReset env_no_session (example_server [10, 11] 5)))
       = example_server [10, 11] 5\<lparr>errors := 5, lastError := 20 * Second\<rparr>"
proof -
  let ?r = "clientsReset env_no_session (example_server [10, 11] 5)"
  have "fst ?r = Returned (Some ''no credentials'')"
    by (simp add: clientsReset_def env_no_session_def env_connected_def example_server_def)
  then have h: "?r = (Returned (Some ''no credentials''), fst (snd ?r), snd (snd ?r))"
    by (cases ?r) simp
  from clientsReset_error_frame [OF h] have
    "fst (snd ?r) = example_server [10, 11] 5\<lparr>errors := 5, lastError := 20 * Second\<rparr>"
    by (simp add: example_server_def env_no_session_def env_connected_def)
  with h show ?thesis by blast
qed

text \<open>
  C7, as stated, for a caller that arrives while the loop of \<open>retry\<close> is active. After two
  calls of \<open>failure\<close>, of which the first one has run and started \<open>retry\<close>, and one failed
  attempt of \<open>retry\<close>, goroutine 2 sleeps inside the loop with the lock held and goroutine 1,
  the second caller of \<open>failure\<close>, cannot take its step: it waits at \<open>srv.Lock()\<close>. Once the
  reconnection has succeeded and \<open>retry\<close> has returned, it runs.
\<close>

theorem failure_waits_for_lock_counterexample:
  "map_option goroutines (run example_schedule example_system)
     = Some [Done, In_failure, In_retry_loop 1]
   \<and> map_option lock_holder (run example_schedule example_system) = Some (Some 2)
   \<and> Option.bind (run example_schedule example_system)
        (step (Run_failure 1 (9 * Second) (9 * Second))) = None
   \<and> map_option goroutines
        (Option.bind (run (example_schedule @ [Iterate_retry 2 env_connected]) example_system)
           (step (Run_failure 1 (21 * Second) (21 * Second))))
       = Some [Done, Done, Done]"
  by (simp add: example_evals)

text \<open>
  C7, amended. In every system reached from a start without goroutines:
  a goroutine that runs \<open>failure\<close> returns within its step, with the lock released, and
  this step starts a goroutine for \<open>retry\<close> exactly when the counter has been incremented
  (the server was neither reseting nor exiting) and now exceeds \<open>maxErrors\<close>; the new
  goroutine has not run then.
  A goroutine that enters \<open>retry\<close> while \<open>failing\<close> is set returns without entering the loop
  and without changing the server.
  While some goroutine is inside the loop of \<open>retry\<close>, no goroutine can run \<open>failure\<close> and
  none can enter \<open>retry\<close> (they wait for the lock until the loop has returned), and no
  other goroutine is inside the loop.
\<close>

theorem failure_starts_retry:
  assumes "run acts (initial_system srv0) = Some sys"
  shows "(\<forall>i now1 now2 sys'. step (Run_failure i now1 now2) sys = Some sys' \<longrightarrow>
            lock_holder sys' = None \<and>
            goroutines sys' = (goroutines sys)[i := Done]
              @ (if \<not> reseting (srv_state sys) \<and> \<not> exiting (srv_state sys)
                    \<and> maxErrors < errors (srv_state sys') then [In_retry] else []))
       \<and> (\<forall>i sys'. step (Enter_retry i) sys = Some sys' \<and> failing (srv_state sys) \<longrightarrow>
            sys' = sys\<lparr>goroutines := (goroutines sys)[i := Done]\<rparr>)
       \<and> (\<forall>i < length (goroutines sys). is_looping (goroutines sys ! i) \<longrightarrow>
            (\<forall>j now1 now2. step (Run_failure j now1 now2) sys = None)
            \<and> (\<forall>j. step (Enter_retry j) sys = None)
            \<and> (\<forall>j < length (goroutines sys). is_looping (goroutines sys ! j) \<longrightarrow> j = i))"
proof (intro conjI allI impI)
  fix i now1 now2 sys'
  assume "step (Run_failure i now1 now2) sys = Some sys'"
  then show "lock_holder sys' = None"
    and "goroutines sys' = (goroutines sys)[i := Done]
              @ (if \<not> reseting (srv_state sys) \<and> \<not> exiting (srv_state sys)
                    \<and> maxErrors < errors (srv_state sys') then [In_retry] else [])"
    by (rule step_Run_failure)+
next
  fix i sys'
  assume "step (Enter_retry i) sys = Some sys' \<and> failing (srv_state sys)"
  then show "sys' = sys\<lparr>goroutines := (goroutines sys)[i := Done]\<rparr>"
    by (auto split: if_splits)
next
  from assms have inv: "lock_inv sys"
    using lock_inv_initial lock_inv_run by blast
  fix i j now1 now2
  assume i: "i < length (goroutines sys)" "is_looping (goroutines sys ! i)"
  from lock_inv_blocks [OF inv i]
  show "step (Run_failure j now1 now2) sys = None" and "step (Enter_retry j) sys = None"
    by simp_all
  assume "j < length (goroutines sys)" "is_looping (goroutines sys ! j)"
  with lock_inv_blocks(3) [OF inv i] show "j = i" by simp
qed

theorem failure_starts_retry_witness:
  "run [Call_failure, Call_failure] example_system \<noteq> None
   \<and> map_option goroutines
        (Option.bind (run [Call_failure, Call_failure] example_system)
           (step (Run_failure 0 (8 * Second) (8 * Second))))
       = Some [Done, In_failure, In_retry]
   \<and> map_option (\<lambda>sys. errors (srv_state sys))
        (Option.bind (run [Call_failure, Call_failure] example_system)
           (step (Run_failure 0 (8 * Second) (8 * Second))))
       = Some 11
   \<and> run example_schedule example_system \<noteq> None
   \<and> is_looping (goroutines (the (run example_schedule example_system)) ! 2)
   \<and> step (Run_failure 1 (9 * Second) (9 * Second)) (the (run example_schedule example_system))
       = None"
proof -
  let ?calls = "[Call_failure, Call_failure]"
  let ?sys1 = "the (run ?calls example_system)"
  let ?sys2 = "the (step (Run_failure 0 (8 * Second) (8 * Second)) ?sys1)"
  let ?sys3 = "the (run example_schedule example_system)"
  have r1: "run ?calls (initial_system (example_server [10, 11] 2\<lparr>errors := 10\<rparr>)) = Some ?sys1"
    by (simp add: example_evals)
  have s1: "step (Run_failure 0 (8 * Second) (8 * Second)) ?sys1 = Some ?sys2"
    by (simp add: example_evals)
  have e2: "errors (srv_state ?sys2) = 11"
    and f1: "\<not> reseting (srv_state ?sys1)" "\<not> exiting (srv_state ?sys1)"
    and g1: "goroutines ?sys1 = [In_failure, In_failure]"
    by (simp_all add: example_evals)
  from failure_starts_retry [OF r1] s1 have
    "goroutines ?sys2 = (goroutines ?sys1)[0 := Done]
       @ (if \<not> reseting (srv_state ?sys1) \<and> \<not> exiting (srv_state ?sys1)
             \<and> maxErrors < errors (srv_state ?sys2) then [In_retry] else [])"
    by blast
  with e2 f1 g1 have g2: "goroutines ?sys2 = [Done, In_failure, In_retry]"
    by (simp add: maxErrors_def)
  have r3: "run example_schedule (initial_system (example_server [10, 11] 2\<lparr>errors := 10\<rparr>))
              = Some ?sys3"
    by (simp add: example_evals)
  have l3: "2 < length (goroutines ?sys3)" "is_looping (goroutines ?sys3 ! 2)"
    by (simp_all add: example_evals)
  with failure_starts_retry [OF r3] have
    b3: "step (Run_failure 1 (9 * Second) (9 * Second)) ?sys3 = None"
    by blast
  have c1: "run ?calls example_system \<noteq> None"
    and c4: "run example_schedule example_system \<noteq> None"
    by (simp_all add: example_evals)
  have eq2: "Option.bind (run ?calls example_system)
               (step (Run_failure 0 (8 * Second) (8 * Second))) = Some ?sys2"
    by (simp add: example_evals)
  have c2: "map_option goroutines
              (Option.bind (run ?calls example_system)
                 (step (Run_failure 0 (8 * Second) (8 * Second))))
            = Some [Done, In_failure, In_retry]"
    unfolding eq2 using g2 by simp
  have c3: "map_option (\<lambda>sys. errors (srv_state sys))
              (Option.bind (run ?calls example_system)
                 (step (Run_failure 0 (8 * Second) (8 * Second))))
            = Some 11"
    unfolding eq2 using e2 by simp
  from c1 c2 c3 c4 l3(2) b3 show ?thesis by blast
qed

end
